theory Spec2Isabelle
  imports Main
begin

section \<open>create-gaarf-wf: macro discovery and the command runner\<close>

text \<open>
  A shallow embedding of two functions of \<^verbatim>\<open>gcp/create-gaarf-wf/src/index.ts\<close>:
  \<^verbatim>\<open>getMacroValues\<close> (with \<^verbatim>\<open>readDir\<close> and \<^verbatim>\<open>prompt\<close>) and \<^verbatim>\<open>exec_cmd\<close>.
  JavaScript strings are modelled as \<^typ>\<open>string\<close>; a plain object whose values are
  strings is a map \<^typ>\<open>string \<rightharpoonup> string\<close> of its own enumerable properties.
\<close>

subsection \<open>The FUNCTIONS marker: \<^verbatim>\<open>script_content.match(/FUNCTIONS/i)\<close>\<close>

text \<open>
  The pattern is nine ASCII letters under the \<^verbatim>\<open>i\<close> flag (no \<^verbatim>\<open>u\<close> flag): each
  position accepts the upper-case or the lower-case letter. \<open>fn_match\<close> is the
  \<^verbatim>\<open>index\<close> of the first match, \<open>None\<close> when \<^verbatim>\<open>match\<close> returns null.
\<close>

definition FUNCTIONS :: "(char \<times> char) list" where
  "FUNCTIONS = zip ''FUNCTIONS'' ''functions''"

fun matches_here :: "(char \<times> char) list \<Rightarrow> string \<Rightarrow> bool" where
  "matches_here [] s = True"
| "matches_here (p # ps) [] = False"
| "matches_here ((u, l) # ps) (c # cs) = ((c = u \<or> c = l) \<and> matches_here ps cs)"

fun fn_match :: "string \<Rightarrow> nat option" where
  "fn_match [] = None"
| "fn_match (c # cs) =
     (if matches_here FUNCTIONS (c # cs) then Some 0 else map_option Suc (fn_match cs))"

text \<open>
  \<^verbatim>\<open>if (fn_match?.index) script_content = script_content.substring(0, fn_match.index)\<close>:
  the test is on the truthiness of the index, and the number 0 is falsy.
\<close>

definition cut_functions :: "string \<Rightarrow> string" where
  "cut_functions script_content =
     (case fn_match script_content of
        None \<Rightarrow> script_content
      | Some i \<Rightarrow> if i \<noteq> 0 then take i script_content else script_content)"

subsection \<open>The macro pattern: \<^verbatim>\<open>/(?<!\$)\{(?<macro>[^}]+)\}/gi\<close>\<close>

text \<open>
  \<open>macro_group s\<close> matches \<^verbatim>\<open>(?<macro>[^}]+)\}\<close> at the start of \<open>s\<close>: the greedy run
  of characters other than \<^verbatim>\<open>}\<close> must be non-empty and must be followed by \<^verbatim>\<open>}\<close>
  (backtracking into the run cannot help, it holds no \<^verbatim>\<open>}\<close>). The result is the
  captured group and the text after the match.
\<close>

definition macro_group :: "string \<Rightarrow> (string \<times> string) option" where
  "macro_group s =
     (let name = takeWhile (\<lambda>c. c \<noteq> CHR ''}'') s;
          rest = dropWhile (\<lambda>c. c \<noteq> CHR ''}'') s
      in if name \<noteq> [] \<and> rest \<noteq> [] then Some (name, tl rest) else None)"

text \<open>
  \<open>matchAll prev s\<close> lists the \<^verbatim>\<open>macro\<close> groups of \<^verbatim>\<open>[...script_content.matchAll(re)]\<close>
  from left to right: \<open>prev\<close> is the character before \<open>s\<close> in the scanned text (for the
  lookbehind), a match is tried at every position, and the scan resumes after a match.
\<close>

function matchAll :: "char option \<Rightarrow> string \<Rightarrow> string list" where
  "matchAll prev [] = []"
| "matchAll prev (c # cs) =
     (if c = CHR ''{'' \<and> prev \<noteq> Some (CHR ''$'')
      then (case macro_group cs of
              Some (name, rest) \<Rightarrow> name # matchAll (Some (CHR ''}'')) rest
            | None \<Rightarrow> matchAll (Some c) cs)
      else matchAll (Some c) cs)"
  by pat_completeness auto
termination
  by (relation "measure (\<lambda>(prev, s). length s)")
     (auto simp: macro_group_def Let_def less_Suc_eq_le split: if_splits
           intro: le_trans [OF diff_le_self length_dropWhile_le])

subsection \<open>The macro object: \<^verbatim>\<open>macro[name] = null\<close> and \<^verbatim>\<open>Object.keys(macro)\<close>\<close>

text \<open>
  \<^verbatim>\<open>const macro: Record<string, null> = {}\<close> is an ordinary object, so an assignment
  goes through the property setters it inherits. \<^verbatim>\<open>Object.prototype\<close> has one accessor,
  \<^verbatim>\<open>__proto__\<close>: assigning null under that key sets the prototype of \<^verbatim>\<open>macro\<close> to null
  and creates no own property; once the prototype is null the accessor is no longer
  inherited and the same assignment creates an own key. Every other key becomes an own
  property at its first assignment and keeps its place afterwards.

  \<open>Object_keys\<close> is the list of own keys in insertion order. (\<^verbatim>\<open>Object.keys\<close> lists
  keys that are array indices first, in numeric order; the order of the keys is not
  used by any statement below, which are about membership.)
\<close>

record macro_object =
  proto_null :: bool
  own_keys :: "string list"

definition empty_object :: macro_object where
  "empty_object = \<lparr>proto_null = False, own_keys = []\<rparr>"

definition assign_null :: "macro_object \<Rightarrow> string \<Rightarrow> macro_object" where
  "assign_null macro key =
     (if key = ''__proto__'' \<and> \<not> proto_null macro then macro\<lparr>proto_null := True\<rparr>
      else if key \<in> set (own_keys macro) then macro
      else macro\<lparr>own_keys := own_keys macro @ [key]\<rparr>)"

definition Object_keys :: "macro_object \<Rightarrow> string list" where
  "Object_keys macro = own_keys macro"

subsection \<open>\<^verbatim>\<open>readDir\<close> and the discovery loop of \<^verbatim>\<open>getMacroValues\<close>\<close>

text \<open>
  The directory tree that \<^verbatim>\<open>fs.readdirSync\<close> and \<^verbatim>\<open>fs.readFileSync\<close> read: a file
  has a name and its text, a directory a name and its entries. \<open>readDir\<close> returns the
  full paths in the order of the source (depth first), each with the text of its file.
  \<open>resolve\<close> stands for \<^verbatim>\<open>path.resolve(dirpath, entry.name)\<close> on an absolute
  \<open>dirpath\<close> and an entry name.
\<close>

datatype entry = File string string | Directory string "entry list"

definition resolve :: "string \<Rightarrow> string \<Rightarrow> string" where
  "resolve dirpath entry_name = dirpath @ ''/'' @ entry_name"

fun readDir :: "string \<Rightarrow> entry list \<Rightarrow> (string \<times> string) list" where
  "readDir dirpath [] = []"
| "readDir dirpath (File entry_name text # entries) =
     (resolve dirpath entry_name, text) # readDir dirpath entries"
| "readDir dirpath (Directory entry_name sub # entries) =
     readDir (resolve dirpath entry_name) sub @ readDir dirpath entries"

definition endsWith :: "string \<Rightarrow> string \<Rightarrow> bool" where
  "endsWith s suffix =
     (length suffix \<le> length s \<and> drop (length s - length suffix) s = suffix)"

text \<open>The macros of one text: the loop over \<^verbatim>\<open>matches\<close>, on the text after the cut.\<close>

definition add_matches :: "macro_object \<Rightarrow> string \<Rightarrow> macro_object" where
  "add_matches macro script_content =
     foldl assign_null macro (matchAll None (cut_functions script_content))"

definition scan_file :: "macro_object \<Rightarrow> string \<times> string \<Rightarrow> macro_object" where
  "scan_file macro file =
     (if endsWith (fst file) ''.sql'' then add_matches macro (snd file) else macro)"

definition find_macros :: "(string \<times> string) list \<Rightarrow> macro_object" where
  "find_macros filelist = foldl scan_file empty_object filelist"

text \<open>The Placeholder Set of a folder, and of a single scanned text.\<close>

definition placeholders :: "string \<Rightarrow> entry list \<Rightarrow> string list" where
  "placeholders folder_path entries = Object_keys (find_macros (readDir folder_path entries))"

definition scanned_macros :: "string \<Rightarrow> string list" where
  "scanned_macros text = Object_keys (foldl assign_null empty_object (matchAll None text))"

text \<open>
  A piece of text in which every \<^verbatim>\<open>{\<close> that is not preceded by \<^verbatim>\<open>$\<close> is followed,
  further on in the piece, by a \<^verbatim>\<open>}\<close>; \<open>prev\<close> is the character before the piece. These
  are the braces at which the pattern can start, and a match that starts inside such a
  piece also ends inside it.
\<close>

fun closed_braces :: "char option \<Rightarrow> string \<Rightarrow> bool" where
  "closed_braces prev [] = True"
| "closed_braces prev (c # cs) =
     ((c = CHR ''{'' \<and> prev \<noteq> Some (CHR ''$'') \<longrightarrow> CHR ''}'' \<in> set cs) \<and>
      closed_braces (Some c) cs)"

subsection \<open>Resolution: the rest of \<^verbatim>\<open>getMacroValues\<close>, and \<^verbatim>\<open>prompt\<close>\<close>

text \<open>
  The answer cache maps a namespace to the answers given under it, a name to a string.
  It is built by \<^verbatim>\<open>JSON.parse\<close> or starts empty, so its entries are separate objects:
  a value of the map stands for the object, and no two namespaces share one. (The
  scalar answers that the caller keeps in the same object are never read or written by
  \<^verbatim>\<open>getMacroValues\<close> and are left out.)
\<close>

type_synonym answers = "string \<rightharpoonup> string"
type_synonym answer_cache = "string \<rightharpoonup> answers"

record question =
  q_type :: string
  q_name :: string
  q_message :: string

text \<open>
  The call \<^verbatim>\<open>inquirer.prompt(questions, answers)\<close> is a parameter of the model: given
  the questions and the answers known so far it yields the names it asked the operator,
  and the answers object it resolves to (\<open>None\<close> when its promise rejects).
\<close>

type_synonym prompter = "question list \<Rightarrow> answers \<Rightarrow> string list \<times> answers option"

text \<open>
  \<open>prompt\<close> returns the names asked, the \<^verbatim>\<open>answers\<close> object after
  \<^verbatim>\<open>Object.assign(answers, actual_answers)\<close>, and \<^verbatim>\<open>actual_answers\<close>.
\<close>

definition prompt :: "prompter \<Rightarrow> question list \<Rightarrow> answers \<Rightarrow> string list \<times> answers \<times> answers option" where
  "prompt inquirer questions answers =
     (case inquirer questions answers of
        (asked, None) \<Rightarrow> (asked, answers, None)
      | (asked, Some actual_answers) \<Rightarrow> (asked, answers ++ actual_answers, Some actual_answers))"

text \<open>
  \<^verbatim>\<open>i.name in answers[prefix]\<close> also finds the properties that a plain object inherits
  from \<^verbatim>\<open>Object.prototype\<close>.
\<close>

definition Object_prototype :: "string list" where
  "Object_prototype =
     [''constructor'', ''hasOwnProperty'', ''isPrototypeOf'', ''propertyIsEnumerable'',
      ''toLocaleString'', ''toString'', ''valueOf'', ''__proto__'',
      ''__defineGetter__'', ''__defineSetter__'', ''__lookupGetter__'', ''__lookupSetter__'']"

definition js_in :: "string \<Rightarrow> answers \<Rightarrow> bool" where
  "js_in key obj = (obj key \<noteq> None \<or> key \<in> set Object_prototype)"

record resolution =
  returned :: "answers option"
  cache_after :: answer_cache
  asked :: "string list"
  notice :: bool

definition text_question :: "string \<Rightarrow> question" where
  "text_question n = \<lparr>q_type = ''text'', q_name = n, q_message = n\<rparr>"

definition getMacroValues ::
  "prompter \<Rightarrow> string \<Rightarrow> entry list \<Rightarrow> answer_cache \<Rightarrow> string \<Rightarrow> resolution" where
  "getMacroValues inquirer folder_path entries answers prefix =
     (let options = map text_question (placeholders folder_path entries)
      in if options \<noteq> [] then
           (let tell = (case answers prefix of
                          None \<Rightarrow> True
                        | Some cached \<Rightarrow> filter (\<lambda>i. \<not> js_in (q_name i) cached) options \<noteq> []);
                cached = (case answers prefix of None \<Rightarrow> Map.empty | Some c \<Rightarrow> c)
            in case prompt inquirer options cached of
                 (names, cached', actual_answers) \<Rightarrow>
                   \<lparr>returned = actual_answers, cache_after = answers(prefix \<mapsto> cached'),
                    asked = names, notice = tell\<rparr>)
         else \<lparr>returned = Some Map.empty, cache_after = answers, asked = [], notice = False\<rparr>)"

text \<open>
  Modelled from the spec: \<^verbatim>\<open>inquirer.prompt\<close> is a library call whose code is not among
  the sources. The spec has the prompt collaborator asked one question per name that is
  not yet in the answers it is given, and the new answers merged into the answers already
  there. \<open>operator\<close> is what the person at the terminal types for each name.
\<close>

definition inquirer_prompt :: "(string \<Rightarrow> string) \<Rightarrow> prompter" where
  "inquirer_prompt operator questions answers =
     (let missing = filter (\<lambda>q. answers (q_name q) = None) questions
      in (map q_name missing,
          Some (answers ++ map_of (map (\<lambda>q. (q_name q, operator (q_name q))) missing))))"

subsection \<open>The command runner: \<^verbatim>\<open>exec_cmd\<close>\<close>

text \<open>
  The module-wide flags read from the command line, and what the runner reads from its
  host. \<open>columns\<close> is \<^verbatim>\<open>process.stdout.columns\<close>: \<open>Some w\<close> when stdout is a terminal
  \<open>w\<close> columns wide, \<open>None\<close> when stdout is a pipe or a file; then the property is
  undefined and the stream has no \<^verbatim>\<open>cursorTo\<close>, \<^verbatim>\<open>moveCursor\<close> or \<^verbatim>\<open>clearScreenDown\<close>.
  \<open>os\<close> decides \<^verbatim>\<open>os.EOL\<close>.
\<close>

datatype platform = Posix | Windows

record host =
  argv_diag :: bool
  argv_debug :: bool
  columns :: "nat option"
  os :: platform

definition is_diag :: "host \<Rightarrow> bool" where
  "is_diag h = argv_diag h"

definition is_debug :: "host \<Rightarrow> bool" where
  "is_debug h = (argv_debug h \<or> argv_diag h)"

definition EOL :: "platform \<Rightarrow> string" where
  "EOL p = (case p of Posix \<Rightarrow> [CHR 0x0A] | Windows \<Rightarrow> [CHR 0x0D, CHR 0x0A])"

text \<open>
  \<^verbatim>\<open>options?: {realtime?: boolean; silent?: boolean; keep_output?: boolean}\<close>: a field
  that is absent is \<open>None\<close>, and the tests of the source are on truthiness.
\<close>

record options =
  realtime :: "bool option"
  silent :: "bool option"
  keep_output :: "bool option"

definition truthy :: "bool option \<Rightarrow> bool" where
  "truthy b = (b = Some True)"

text \<open>
  The spawned process as the runner sees it: the chunks of its two streams in the
  order of arrival, then the \<^verbatim>\<open>close\<close> event. The event carries the exit code, or
  null (\<open>None\<close>) when the process was ended by a signal.
\<close>

datatype chunk = Out string | Err string

record process =
  chunks :: "chunk list"
  exit_code :: "int option"

record result =
  code :: "int option"
  stderr :: string
  stdout :: string

text \<open>
  The \<^verbatim>\<open>close\<close> handler has no handler of its own for exceptions: when a call in it
  throws, the rest of it does not run and the promise of \<^verbatim>\<open>exec_cmd\<close> is never
  settled. The outcome of a run is the result the promise resolves to, or the error.
\<close>

datatype error = TypeError

text \<open>
  What the runner does to its surroundings, in order. The lines appended to the log
  file are kept structured (the \<^verbatim>\<open>[${new Date()}]\<close> stamp is left out), and so is the
  colour that \<^verbatim>\<open>chalk\<close> gives to a line on the console.
\<close>

datatype log_text = Running string | Returned string "int option" | Text string

datatype effect =
    SpinnerStart
  | SpinnerStop
  | ConsoleLog string
  | AppendLog log_text
  | Spawn string
  | StdoutWrite string
  | StderrWrite string
  | CursorTo nat
  | MoveCursor int int
  | ClearScreenDown

text \<open>\<^verbatim>\<open>s.split(separator)\<close> for a string separator.\<close>

function split_from :: "string \<Rightarrow> string \<Rightarrow> string \<Rightarrow> string list" where
  "split_from separator piece [] = [piece]"
| "split_from separator piece (c # cs) =
     (if separator \<noteq> [] \<and> take (length separator) (c # cs) = separator
      then piece # split_from separator [] (drop (length separator) (c # cs))
      else split_from separator (piece @ [c]) cs)"
  by pat_completeness auto
termination
  by (relation "measure (\<lambda>(separator, piece, s). length s)") auto

definition split :: "string \<Rightarrow> string \<Rightarrow> string list" where
  "split s separator =
     (if separator = [] then map (\<lambda>c. [c]) s else split_from separator [] s)"

text \<open>
  \<^verbatim>\<open>const arr = line.split('\r'); return arr[arr.length - 1]\<close>. The array has at least
  one element (\<open>split_from_not_Nil\<close> below), so the index is in range.
\<close>

definition normalize :: "string \<Rightarrow> string" where
  "normalize line = last (split line [CHR 0x0D])"

text \<open>
  The spec's words for the same: the text after the last carriage return of the line,
  that is, the longest end of the line that holds no carriage return.
\<close>

definition after_last_CR :: "string \<Rightarrow> string" where
  "after_last_CR line = rev (takeWhile (\<lambda>c. c \<noteq> CHR 0x0D) (rev line))"

text \<open>
  \<^verbatim>\<open>((line.length / terminal_width) | 0) + 1\<close>: the quotient of two non-negative
  integers, truncated by \<^verbatim>\<open>| 0\<close>, which reduces to a signed 32-bit integer. A division
  by 0 gives Infinity or NaN, which \<^verbatim>\<open>| 0\<close> turns into 0, as \<open>div\<close> does.
\<close>

definition to_int32 :: "int \<Rightarrow> int" where
  "to_int32 x = (x + 2 ^ 31) mod 2 ^ 32 - 2 ^ 31"

definition rows :: "nat \<Rightarrow> string \<Rightarrow> int" where
  "rows terminal_width line = to_int32 (int (length line) div int terminal_width) + 1"

definition row_count :: "nat \<Rightarrow> string list \<Rightarrow> int" where
  "row_count terminal_width lines =
     foldl (\<lambda>total count. total + count) 0 (map (rows terminal_width) lines)"

text \<open>The first lines of \<^verbatim>\<open>exec_cmd\<close>: the options in force.\<close>

definition options_in_force :: "host \<Rightarrow> bool \<Rightarrow> options option \<Rightarrow> options" where
  "options_in_force h spinner given =
     (let o1 = (case given of
                  None \<Rightarrow> \<lparr>realtime = None, silent = None, keep_output = None\<rparr>
                | Some o0 \<Rightarrow> o0);
          o2 = (if spinner \<and> realtime o1 = None then o1\<lparr>realtime := Some False\<rparr> else o1)
      in if is_diag h then o2\<lparr>keep_output := Some True\<rparr> else o2)"

text \<open>The two \<^verbatim>\<open>data\<close> handlers: what is captured, and what is echoed.\<close>

fun captured_stdout :: "chunk list \<Rightarrow> string" where
  "captured_stdout [] = []"
| "captured_stdout (Out s # cs) = s @ captured_stdout cs"
| "captured_stdout (Err s # cs) = captured_stdout cs"

fun captured_stderr :: "chunk list \<Rightarrow> string" where
  "captured_stderr [] = []"
| "captured_stderr (Out s # cs) = captured_stderr cs"
| "captured_stderr (Err s # cs) = s @ captured_stderr cs"

fun echo :: "options \<Rightarrow> chunk \<Rightarrow> effect list" where
  "echo opts (Out s) = (if truthy (realtime opts) then [StdoutWrite s] else [])"
| "echo opts (Err s) = (if truthy (realtime opts) then [StderrWrite s] else [])"

text \<open>
  The \<^verbatim>\<open>close\<close> handler, lines 87 to 105. Lines 90 to 92 split what was captured
  into lines, lines 93 to 96 normalize each of them.
\<close>

definition captured_lines :: "host \<Rightarrow> string \<Rightarrow> string \<Rightarrow> string list" where
  "captured_lines h out err =
     (if out \<noteq> [] then split out (EOL (os h)) else []) @
     (if err \<noteq> [] then split err (EOL (os h)) else [])"

definition echoed_lines :: "host \<Rightarrow> string \<Rightarrow> string \<Rightarrow> string list" where
  "echoed_lines h out err = map normalize (captured_lines h out err)"

text \<open>
  Lines 97 to 104. The three calls on \<^verbatim>\<open>process.stdout\<close> are not guarded: on a stdout
  that is not a terminal the first of them, \<^verbatim>\<open>cursorTo\<close>, is not a function and the
  call throws. (The row count computed just before, from an undefined width, is never
  used then.)
\<close>

definition erase :: "host \<Rightarrow> bool \<Rightarrow> options \<Rightarrow> string \<Rightarrow> string \<Rightarrow> error + effect list" where
  "erase h spinner opts out err =
     (if \<not> spinner \<and> truthy (realtime opts) \<and> \<not> truthy (keep_output opts) then
        (let lines = echoed_lines h out err
         in if length lines > 0 then
              (case columns h of
                 None \<Rightarrow> Inl TypeError
               | Some terminal_width \<Rightarrow>
                   Inr [CursorTo 0, MoveCursor 0 (- row_count terminal_width lines + 1),
                        ClearScreenDown])
            else Inr [])
      else Inr [])"

text \<open>
  The whole \<^verbatim>\<open>close\<close> handler: what it does, and the outcome. \<^verbatim>\<open>code !== 0\<close> is true
  of a null code.
\<close>

definition on_close ::
  "host \<Rightarrow> string \<Rightarrow> bool \<Rightarrow> options \<Rightarrow> string \<Rightarrow> string \<Rightarrow> int option \<Rightarrow>
   effect list \<times> (error + result)" where
  "on_close h cmd spinner opts out err c =
     (case erase h spinner opts out err of
        Inl e \<Rightarrow> ((if spinner then [SpinnerStop] else []), Inl e)
      | Inr erased \<Rightarrow>
          ((if spinner then [SpinnerStop] else []) @
           erased @
           (if err \<noteq> [] \<and> \<not> truthy (realtime opts) \<and> \<not> truthy (silent opts) \<and> c \<noteq> Some 0
            then [ConsoleLog err] else []) @
           (if is_debug h
            then [AppendLog (Returned cmd c), AppendLog (Text (out @ [CHR 0x0A])),
                  AppendLog (Text (err @ [CHR 0x0A]))]
            else []),
           Inr \<lparr>code = c, stderr = err, stdout = out\<rparr>))"

definition exec_cmd ::
  "host \<Rightarrow> string \<Rightarrow> bool \<Rightarrow> options option \<Rightarrow> process \<Rightarrow> effect list \<times> (error + result)" where
  "exec_cmd h cmd spinner given p =
     (let opts = options_in_force h spinner given;
          out = captured_stdout (chunks p);
          err = captured_stderr (chunks p);
          closed = on_close h cmd spinner opts out err (exit_code p)
      in ((if spinner then [SpinnerStart] else []) @
          (if is_debug h then [ConsoleLog cmd, AppendLog (Running cmd)] else []) @
          [Spawn cmd] @
          concat (map (echo opts) (chunks p)) @
          fst closed,
          snd closed))"

text \<open>The erasing, as a predicate on what the runner did.\<close>

fun erasing :: "effect \<Rightarrow> bool" where
  "erasing (CursorTo x) = True"
| "erasing (MoveCursor dx dy) = True"
| "erasing ClearScreenDown = True"
| "erasing e = False"

section \<open>Properties of the command runner\<close>

subsection \<open>Row count\<close>

lemma to_int32_small: "0 \<le> x \<Longrightarrow> x < 2 ^ 31 \<Longrightarrow> to_int32 x = x"
  by (simp add: to_int32_def)

lemma rows_small:
  assumes "0 < w" "length l < 2 ^ 31"
  shows "rows w l = int (length l) div int w + 1"
proof -
  have q: "int (length l) div int w = int (length l div w)"
    by (simp add: zdiv_int)
  have "length l div w \<le> length l" by (rule div_le_dividend)
  from this assms(2) have "length l div w < 2 ^ 31" by (rule le_less_trans)
  then have "int (length l div w) < 2 ^ 31"
    by (metis of_nat_less_iff of_nat_numeral of_nat_power)
  then show ?thesis by (simp add: rows_def q to_int32_small)
qed

lemma foldl_plus_sum_list:
  "foldl (\<lambda>total count. total + count) (a::int) xs = a + sum_list xs"
  by (induction xs arbitrary: a) auto

text \<open>
  Claim C7. For a positive terminal width, the row count of a list of lines is the sum
  over the lines of \<open>length line div width + 1\<close>. The lines are JavaScript strings,
  whose length is below \<open>2 ^ 31\<close> in every engine, so that \<^verbatim>\<open>| 0\<close> only truncates.
\<close>

theorem row_count_is_sum:
  assumes "0 < w" and "\<forall>l\<in>set lines. length l < 2 ^ 31"
  shows "row_count w lines = (\<Sum>l\<leftarrow>lines. int (length l) div int w + 1)"
proof -
  have "map (rows w) lines = map (\<lambda>l. int (length l) div int w + 1) lines"
    using assms by (simp add: rows_small)
  then show ?thesis by (simp only: row_count_def foldl_plus_sum_list add_0)
qed

text \<open>Width 80: one line of length 85 takes 2 rows, lines of length 10 and 90 take 3.\<close>

theorem row_count_is_sum_witness:
  "row_count 80 [replicate 85 (CHR ''x'')] = 2 \<and>
   row_count 80 [replicate 10 (CHR ''x''), replicate 90 (CHR ''y'')] = 3"
  using row_count_is_sum [of 80 "[replicate 85 (CHR ''x'')]"]
        row_count_is_sum [of 80 "[replicate 10 (CHR ''x''), replicate 90 (CHR ''y'')]"]
  by simp

subsection \<open>Carriage returns\<close>

lemma split_from_not_Nil: "split_from separator piece s \<noteq> []"
  by (induction separator piece s rule: split_from.induct) auto

lemma last_split_from_CR:
  assumes "CHR 0x0D \<notin> set piece"
  shows "CHR 0x0D \<notin> set (last (split_from [CHR 0x0D] piece s)) \<and>
         (\<exists>before. piece @ s = before @ last (split_from [CHR 0x0D] piece s) \<and>
                   (before = [] \<or> last before = CHR 0x0D))"
  using assms
proof (induction s arbitrary: piece)
  case Nil
  then show ?case by simp
next
  case (Cons c cs)
  show ?case
  proof (cases "c = CHR 0x0D")
    case True
    let ?r = "last (split_from [CHR 0x0D] [] cs)"
    from Cons.IH [of "[]"] obtain b where
      r: "CHR 0x0D \<notin> set ?r" and b: "cs = b @ ?r" "b = [] \<or> last b = CHR 0x0D"
      by auto
    have l: "last (split_from [CHR 0x0D] piece (c # cs)) = ?r"
      using True by (simp add: split_from_not_Nil)
    have "piece @ c # cs = (piece @ [c] @ b) @ ?r"
      using b(1) by simp
    moreover have "last (piece @ [c] @ b) = CHR 0x0D"
      using b(2) True by auto
    ultimately show ?thesis using r l by metis
  next
    case False
    then have l: "last (split_from [CHR 0x0D] piece (c # cs)) =
                  last (split_from [CHR 0x0D] (piece @ [c]) cs)"
      by simp
    from False Cons.prems have "CHR 0x0D \<notin> set (piece @ [c])" by simp
    from Cons.IH [OF this] show ?thesis unfolding l by simp
  qed
qed

lemma normalize_no_CR: "CHR 0x0D \<notin> set (normalize line)"
  using last_split_from_CR [of "[]" line] by (simp add: normalize_def split_def)

lemma normalize_suffix:
  "\<exists>before. line = before @ normalize line \<and> (before = [] \<or> last before = CHR 0x0D)"
  using last_split_from_CR [of "[]" line] by (simp add: normalize_def split_def)

lemma after_last_CR_unique:
  assumes "line = before @ n" "CHR 0x0D \<notin> set n" "before = [] \<or> last before = CHR 0x0D"
  shows "after_last_CR line = n"
proof -
  let ?P = "\<lambda>c. c \<noteq> CHR 0x0D"
  have a: "\<forall>x\<in>set (rev n). ?P x" using assms(2) by auto
  have b: "takeWhile ?P (rev before) = []"
    using assms(3) by (cases before rule: rev_cases) auto
  have "takeWhile ?P (rev n @ rev before) = rev n @ takeWhile ?P (rev before)"
    by (rule takeWhile_append2) (use a in auto)
  with b have "takeWhile ?P (rev line) = rev n" by (simp add: assms(1))
  then show ?thesis by (simp add: after_last_CR_def)
qed

lemma normalize_after_last_CR: "normalize line = after_last_CR line"
proof -
  from normalize_suffix [of line] obtain before where
    "line = before @ normalize line" "before = [] \<or> last before = CHR 0x0D" by blast
  from after_last_CR_unique [OF this(1) normalize_no_CR this(2)] show ?thesis by simp
qed

lemma split_not_Nil: "s \<noteq> [] \<Longrightarrow> split s separator \<noteq> []"
  by (simp add: split_def split_from_not_Nil)

lemma captured_lines_Nil: "captured_lines h out err = [] \<longleftrightarrow> out = [] \<and> err = []"
  by (auto simp: captured_lines_def split_not_Nil)

lemma echoed_lines_Nil: "echoed_lines h out err = [] \<longleftrightarrow> out = [] \<and> err = []"
  by (simp add: echoed_lines_def captured_lines_Nil)

text \<open>
  Claim C6. The normalized line is the text after the last carriage return of the line:
  the line is some text that is empty or ends in a carriage return, followed by the
  normalized line, which holds no carriage return. The lines that are counted are the
  lines into which the captured stdout and stderr split, each cut down to the text
  after its last carriage return, and the cursor moves up by the row count of those.
\<close>

theorem line_after_last_CR:
  "normalize line = after_last_CR line \<and>
   (\<exists>before. line = before @ normalize line \<and> (before = [] \<or> last before = CHR 0x0D)) \<and>
   CHR 0x0D \<notin> set (normalize line) \<and>
   echoed_lines h out err =
     map after_last_CR
       ((if out \<noteq> [] then split out (EOL (os h)) else []) @
        (if err \<noteq> [] then split err (EOL (os h)) else [])) \<and>
   (columns h = Some w \<and> \<not> spinner \<and> truthy (realtime opts) \<and> \<not> truthy (keep_output opts) \<and>
    (out \<noteq> [] \<or> err \<noteq> []) \<longrightarrow>
      erase h spinner opts out err =
        Inr [CursorTo 0,
             MoveCursor 0
               (- row_count w
                    (map after_last_CR
                       ((if out \<noteq> [] then split out (EOL (os h)) else []) @
                        (if err \<noteq> [] then split err (EOL (os h)) else []))) + 1),
             ClearScreenDown])"
proof (intro conjI impI)
  show "normalize line = after_last_CR line" by (rule normalize_after_last_CR)
  show "\<exists>before. line = before @ normalize line \<and> (before = [] \<or> last before = CHR 0x0D)"
    by (rule normalize_suffix)
  show "CHR 0x0D \<notin> set (normalize line)" by (rule normalize_no_CR)
  have n: "normalize = after_last_CR"
    by (rule ext) (rule normalize_after_last_CR)
  show e: "echoed_lines h out err =
     map after_last_CR
       ((if out \<noteq> [] then split out (EOL (os h)) else []) @
        (if err \<noteq> [] then split err (EOL (os h)) else []))"
    by (simp only: echoed_lines_def captured_lines_def n)
  assume c: "columns h = Some w \<and> \<not> spinner \<and> truthy (realtime opts) \<and>
             \<not> truthy (keep_output opts) \<and> (out \<noteq> [] \<or> err \<noteq> [])"
  then have "echoed_lines h out err \<noteq> []" by (simp add: echoed_lines_Nil)
  with c have "erase h spinner opts out err =
        Inr [CursorTo 0, MoveCursor 0 (- row_count w (echoed_lines h out err) + 1),
             ClearScreenDown]"
    by (simp add: erase_def Let_def)
  then show "erase h spinner opts out err =
        Inr [CursorTo 0,
             MoveCursor 0
               (- row_count w
                    (map after_last_CR
                       ((if out \<noteq> [] then split out (EOL (os h)) else []) @
                        (if err \<noteq> [] then split err (EOL (os h)) else []))) + 1),
             ClearScreenDown]"
    by (simp only: e)
qed

text \<open>
  The line \<^verbatim>\<open>progress 50%\rprogress 100%\<close> becomes \<^verbatim>\<open>progress 100%\<close>; on a terminal of 10
  columns it is counted as 2 rows, not as the 3 rows of the whole line.
\<close>

theorem line_after_last_CR_witness:
  "normalize (''progress 50%'' @ [CHR 0x0D] @ ''progress 100%'') = ''progress 100%'' \<and>
   echoed_lines \<lparr>argv_diag = False, argv_debug = False, columns = Some 10, os = Posix\<rparr>
     (''listing'' @ [CHR 0x0A] @ ''progress 50%'' @ [CHR 0x0D] @ ''progress 100%'') [] =
     [''listing'', ''progress 100%''] \<and>
   erase \<lparr>argv_diag = False, argv_debug = False, columns = Some 10, os = Posix\<rparr> False
     \<lparr>realtime = Some True, silent = None, keep_output = None\<rparr>
     (''progress 50%'' @ [CHR 0x0D] @ ''progress 100%'') [] =
     Inr [CursorTo 0, MoveCursor 0 (- 1), ClearScreenDown]"
  using line_after_last_CR
    [of "''progress 50%'' @ [CHR 0x0D] @ ''progress 100%''"
        "\<lparr>argv_diag = False, argv_debug = False, columns = Some 10, os = Posix\<rparr>"
        "''listing'' @ [CHR 0x0A] @ ''progress 50%'' @ [CHR 0x0D] @ ''progress 100%''" "[]"]
      line_after_last_CR
    [of "[]" "\<lparr>argv_diag = False, argv_debug = False, columns = Some 10, os = Posix\<rparr>"
        "''progress 50%'' @ [CHR 0x0D] @ ''progress 100%''" "[]" 10 False
        "\<lparr>realtime = Some True, silent = None, keep_output = None\<rparr>"]
  by (simp add: after_last_CR_def EOL_def split_def truthy_def row_count_def rows_def
        to_int32_def)

subsection \<open>Erasing what was echoed\<close>

lemma erasing_echo: "filter erasing (concat (map (echo opts) cs)) = []"
proof (induction cs)
  case Nil
  show ?case by simp
next
  case (Cons c cs)
  then show ?case by (cases c) simp_all
qed

lemma keep_output_in_force:
  "is_diag h \<Longrightarrow> keep_output (options_in_force h spinner given) = Some True"
  by (simp add: options_in_force_def Let_def)

lemma erase_kept: "truthy (keep_output opts) \<Longrightarrow> erase h spinner opts out err = Inr []"
  by (simp add: erase_def)

text \<open>
  Claim C9. With the diagnostic flag set, \<^verbatim>\<open>keep_output\<close> is true in the options in
  force whatever the caller asked for, and the runner moves no cursor and clears
  nothing, for every command, spinner, options and process.
\<close>

theorem diag_never_erases:
  assumes "is_diag h"
  shows "keep_output (options_in_force h spinner given) = Some True \<and>
         filter erasing (fst (exec_cmd h cmd spinner given p)) = []"
proof -
  have k: "keep_output (options_in_force h spinner given) = Some True"
    using assms by (rule keep_output_in_force)
  then have "erase h spinner (options_in_force h spinner given) out err = Inr []" for out err
    by (simp add: erase_kept truthy_def)
  then have "filter erasing (fst (exec_cmd h cmd spinner given p)) = []"
    by (simp add: exec_cmd_def Let_def on_close_def erasing_echo)
  with k show ?thesis by simp
qed

text \<open>The caller asks for \<^verbatim>\<open>keep_output: false\<close> with live echo, under \<^verbatim>\<open>--diag\<close>.\<close>

theorem diag_never_erases_witness:
  "filter erasing
     (fst (exec_cmd \<lparr>argv_diag = True, argv_debug = False, columns = Some 80, os = Posix\<rparr>
             ''ls'' False (Some \<lparr>realtime = Some True, silent = None, keep_output = Some False\<rparr>)
             \<lparr>chunks = [Out ''a.txt''], exit_code = Some 0\<rparr>)) = []"
  using diag_never_erases
    [of "\<lparr>argv_diag = True, argv_debug = False, columns = Some 80, os = Posix\<rparr>" False
        "Some \<lparr>realtime = Some True, silent = None, keep_output = Some False\<rparr>" "''ls''"
        "\<lparr>chunks = [Out ''a.txt''], exit_code = Some 0\<rparr>"]
  by (simp add: is_diag_def)

text \<open>
  Claim C5, as the code has it. On a stdout that is a terminal, with live echo, no
  spinner, \<^verbatim>\<open>keep_output\<close> not true and the diagnostic flag not set, the runner erases
  after the last echoed chunk, and does so exactly when the command wrote something to
  stdout or stderr: cursor to column 0, up by the row count less one, clear to the end
  of the screen. A command without any output moves no cursor and clears nothing.
  (Nothing is said here of a stdout that is not a terminal.)
\<close>

theorem erase_when_output:
  assumes "realtime opts = Some True" and "keep_output opts \<noteq> Some True" and "\<not> is_diag h"
    and "columns h = Some w"
  shows "fst (exec_cmd h cmd False (Some opts) p) =
           (if is_debug h then [ConsoleLog cmd, AppendLog (Running cmd)] else []) @
           [Spawn cmd] @
           concat (map (echo opts) (chunks p)) @
           (if captured_stdout (chunks p) \<noteq> [] \<or> captured_stderr (chunks p) \<noteq> []
            then [CursorTo 0,
                  MoveCursor 0 (- row_count w
                      (echoed_lines h (captured_stdout (chunks p)) (captured_stderr (chunks p))) + 1),
                  ClearScreenDown]
            else []) @
           (if is_debug h
            then [AppendLog (Returned cmd (exit_code p)),
                  AppendLog (Text (captured_stdout (chunks p) @ [CHR 0x0A])),
                  AppendLog (Text (captured_stderr (chunks p) @ [CHR 0x0A]))]
            else [])"
proof -
  have o: "options_in_force h False (Some opts) = opts"
    using assms(3) by (simp add: options_in_force_def)
  show ?thesis
    using assms(1,2,4)
      echoed_lines_Nil [of h "captured_stdout (chunks p)" "captured_stderr (chunks p)"]
    by (simp add: exec_cmd_def Let_def o on_close_def erase_def truthy_def)
qed

theorem erase_when_output_witness:
  "fst (exec_cmd \<lparr>argv_diag = False, argv_debug = False, columns = Some 80, os = Posix\<rparr>
          ''ls'' False (Some \<lparr>realtime = Some True, silent = None, keep_output = Some False\<rparr>)
          \<lparr>chunks = [Out ''a.txt''], exit_code = Some 0\<rparr>) =
     [Spawn ''ls'', StdoutWrite ''a.txt'', CursorTo 0, MoveCursor 0 0, ClearScreenDown]"
  using erase_when_output
    [of "\<lparr>realtime = Some True, silent = None, keep_output = Some False\<rparr>"
        "\<lparr>argv_diag = False, argv_debug = False, columns = Some 80, os = Posix\<rparr>" 80 "''ls''"
        "\<lparr>chunks = [Out ''a.txt''], exit_code = Some 0\<rparr>"]
  by (simp add: is_diag_def is_debug_def truthy_def echoed_lines_def captured_lines_def EOL_def
        split_def normalize_def row_count_def rows_def to_int32_def)

text \<open>
  Claim C5, as stated, fails: on a terminal, a command that writes nothing, run with
  live echo, no spinner and \<^verbatim>\<open>keep_output: false\<close>, is spawned and nothing else happens.
\<close>

theorem no_output_no_erase:
  "fst (exec_cmd \<lparr>argv_diag = False, argv_debug = False, columns = Some 80, os = Posix\<rparr>
          ''true'' False (Some \<lparr>realtime = Some True, silent = None, keep_output = Some False\<rparr>)
          \<lparr>chunks = [], exit_code = Some 0\<rparr>) = [Spawn ''true'']"
  by (simp add: exec_cmd_def options_in_force_def is_diag_def is_debug_def on_close_def
        erase_def echoed_lines_def captured_lines_def truthy_def)

subsection \<open>The outcome\<close>





section \<open>Properties of macro discovery\<close>

subsection \<open>What the pattern finds\<close>

lemma macro_group_Some:
  assumes "macro_group s = Some (name, rest)"
  shows "s = name @ CHR ''}'' # rest \<and> name \<noteq> [] \<and> CHR ''}'' \<notin> set name"
proof -
  let ?P = "\<lambda>c. c \<noteq> CHR ''}''"
  from assms have n: "name = takeWhile ?P s" "name \<noteq> []"
    and d: "dropWhile ?P s \<noteq> []" "rest = tl (dropWhile ?P s)"
    by (auto simp: macro_group_def Let_def split: if_splits)
  from d(1) have "\<not> ?P (hd (dropWhile ?P s))" by (rule hd_dropWhile)
  with d have "dropWhile ?P s = CHR ''}'' # rest"
    by (cases "dropWhile ?P s") auto
  then have "s = name @ CHR ''}'' # rest"
    using n(1) takeWhile_dropWhile_id [of ?P s] by simp
  moreover have "CHR ''}'' \<notin> set name"
    unfolding n(1) by (auto dest: set_takeWhileD)
  ultimately show ?thesis using n(2) by simp
qed

lemma macro_group_token:
  assumes "n \<noteq> []" "CHR ''}'' \<notin> set n"
  shows "macro_group (n @ CHR ''}'' # post) = Some (n, post)"
proof -
  let ?P = "\<lambda>c. c \<noteq> CHR ''}''"
  from assms(2) have a: "\<forall>x\<in>set n. ?P x" by auto
  have "takeWhile ?P (n @ CHR ''}'' # post) = n"
    using a by (simp add: takeWhile_append2)
  moreover have "dropWhile ?P (n @ CHR ''}'' # post) = CHR ''}'' # post"
    using a by (simp add: dropWhile_append2)
  ultimately show ?thesis using assms(1) by (simp add: macro_group_def)
qed

lemma matchAll_sound:
  "n \<in> set (matchAll prev s) \<Longrightarrow>
   \<exists>pre post. s = pre @ CHR ''{'' # n @ CHR ''}'' # post \<and> n \<noteq> [] \<and> CHR ''}'' \<notin> set n \<and>
              (if pre = [] then prev \<noteq> Some (CHR ''$'') else last pre \<noteq> CHR ''$'')"
proof (induction prev s rule: matchAll.induct)
  case (1 prev)
  then show ?case by simp
next
  case (2 prev c cs)
  show ?case
  proof (cases "c = CHR ''{'' \<and> prev \<noteq> Some (CHR ''$'')")
    case True
    show ?thesis
    proof (cases "macro_group cs")
      case None
      with True "2.prems" have "n \<in> set (matchAll (Some c) cs)" by simp
      from "2.IH"(1) [OF True None this] obtain pre post where
        p: "cs = pre @ CHR ''{'' # n @ CHR ''}'' # post" "n \<noteq> []" "CHR ''}'' \<notin> set n"
           "if pre = [] then Some c \<noteq> Some (CHR ''$'') else last pre \<noteq> CHR ''$''"
        by blast
      have "c # cs = (c # pre) @ CHR ''{'' # n @ CHR ''}'' # post" using p(1) by simp
      moreover have "last (c # pre) \<noteq> CHR ''$''" using p(4) by (auto split: if_splits)
      ultimately show ?thesis using p(2,3) by (metis list.distinct(1))
    next
      case (Some a)
      obtain name rest where a: "a = (name, rest)" by (cases a)
      from macro_group_Some [OF Some [unfolded a]]
      have g: "cs = name @ CHR ''}'' # rest" "name \<noteq> []" "CHR ''}'' \<notin> set name" by auto
      from True Some a "2.prems"
      have "n = name \<or> n \<in> set (matchAll (Some (CHR ''}'')) rest)" by auto
      then show ?thesis
      proof
        assume "n = name"
        with g True have "c # cs = [] @ CHR ''{'' # n @ CHR ''}'' # rest" by simp
        with g True \<open>n = name\<close> show ?thesis by (metis (full_types))
      next
        assume "n \<in> set (matchAll (Some (CHR ''}'')) rest)"
        from "2.IH"(2) [OF True Some a [symmetric] this] obtain pre post where
          p: "rest = pre @ CHR ''{'' # n @ CHR ''}'' # post" "n \<noteq> []" "CHR ''}'' \<notin> set n"
             "if pre = [] then Some (CHR ''}'') \<noteq> Some (CHR ''$'') else last pre \<noteq> CHR ''$''"
          by blast
        have "c # cs = (c # name @ CHR ''}'' # pre) @ CHR ''{'' # n @ CHR ''}'' # post"
          using p(1) g(1) by simp
        moreover have "last (c # name @ CHR ''}'' # pre) \<noteq> CHR ''$''"
          using p(4) by (auto split: if_splits)
        ultimately show ?thesis using p(2,3) by (metis list.distinct(1))
      qed
    qed
  next
    case False
    with "2.prems" have "n \<in> set (matchAll (Some c) cs)" by auto
    from "2.IH"(3) [OF False this] obtain pre post where
      p: "cs = pre @ CHR ''{'' # n @ CHR ''}'' # post" "n \<noteq> []" "CHR ''}'' \<notin> set n"
         "if pre = [] then Some c \<noteq> Some (CHR ''$'') else last pre \<noteq> CHR ''$''"
      by blast
    have "c # cs = (c # pre) @ CHR ''{'' # n @ CHR ''}'' # post" using p(1) by simp
    moreover have "last (c # pre) \<noteq> CHR ''$''" using p(4) by (auto split: if_splits)
    ultimately show ?thesis using p(2,3) by (metis list.distinct(1))
  qed
qed


lemma closed_braces_append:
  "closed_braces prev (xs @ ys) \<Longrightarrow>
   closed_braces (if xs = [] then prev else Some (last xs)) ys"
  by (induction xs arbitrary: prev) auto

lemma matchAll_append:
  "closed_braces prev pre \<Longrightarrow>
   matchAll prev (pre @ rest) =
     matchAll prev pre @ matchAll (if pre = [] then prev else Some (last pre)) rest"
proof (induction prev pre rule: matchAll.induct)
  case (1 prev)
  show ?case by simp
next
  case (2 prev c cs)
  from "2.prems" have cl: "closed_braces (Some c) cs" by simp
  have lst: "(if cs = [] then Some c else Some (last cs)) = Some (last (c # cs))" by simp
  show ?case
  proof (cases "c = CHR ''{'' \<and> prev \<noteq> Some (CHR ''$'')")
    case False
    from "2.IH"(3) [OF False cl] False lst show ?thesis by auto
  next
    case True
    with "2.prems" have br: "CHR ''}'' \<in> set cs" by simp
    let ?P = "\<lambda>c. c \<noteq> CHR ''}''"
    from br have ex: "\<exists>x\<in>set cs. \<not> ?P x" by auto
    have tw: "takeWhile ?P (cs @ rest) = takeWhile ?P cs"
      using ex by (simp add: takeWhile_append1)
    have "dropWhile ?P cs \<noteq> []" using ex by (simp add: dropWhile_eq_Nil_conv)
    moreover have "dropWhile ?P (cs @ rest) = dropWhile ?P cs @ rest"
      using ex by (simp add: dropWhile_append1)
    ultimately have dw: "dropWhile ?P (cs @ rest) \<noteq> []"
      "tl (dropWhile ?P (cs @ rest)) = tl (dropWhile ?P cs) @ rest"
      by simp_all
    show ?thesis
    proof (cases "macro_group cs")
      case None
      then have "macro_group (cs @ rest) = None"
        using tw dw \<open>dropWhile ?P cs \<noteq> []\<close>
        by (simp add: macro_group_def Let_def split: if_splits)
      with "2.IH"(1) [OF True None cl] True None lst show ?thesis by simp
    next
      case (Some a)
      obtain name r where a: "a = (name, r)" by (cases a)
      from macro_group_Some [OF Some [unfolded a]]
      have g: "cs = name @ CHR ''}'' # r" by simp
      from Some a have g2: "macro_group (cs @ rest) = Some (name, r @ rest)"
        using tw dw by (simp add: macro_group_def Let_def split: if_splits)
      from cl g have clr: "closed_braces (Some (CHR ''}'')) r"
        using closed_braces_append [of "Some c" "name @ [CHR ''}'']" r] by simp
      have "(if r = [] then Some (CHR ''}'') else Some (last r)) = Some (last (c # cs))"
        using g by simp
      with "2.IH"(2) [OF True Some a [symmetric] clr] True Some a g2 show ?thesis by simp
    qed
  qed
qed

lemma matchAll_complete:
  assumes "text = pre @ CHR ''{'' # n @ CHR ''}'' # post" "n \<noteq> []" "CHR ''}'' \<notin> set n"
    "pre = [] \<or> last pre \<noteq> CHR ''$''" "closed_braces None pre"
  shows "n \<in> set (matchAll None text)"
proof -
  let ?prev = "if pre = [] then None else Some (last pre)"
  have p: "?prev \<noteq> Some (CHR ''$'')" using assms(4) by auto
  have "matchAll ?prev (CHR ''{'' # n @ CHR ''}'' # post) =
          n # matchAll (Some (CHR ''}'')) post"
    using p macro_group_token [OF assms(2,3), of post] by simp
  then show ?thesis
    unfolding assms(1) matchAll_append [OF assms(5)] by simp
qed

text \<open>
  A piece that is not closed splits at its first brace that is left open: the text
  before that brace is closed, and no \<^verbatim>\<open>}\<close> follows the brace.
\<close>

lemma first_open_brace:
  "\<not> closed_braces prev pre \<Longrightarrow>
   \<exists>a m. pre = a @ CHR ''{'' # m \<and> closed_braces prev a \<and>
         (if a = [] then prev else Some (last a)) \<noteq> Some (CHR ''$'') \<and> CHR ''}'' \<notin> set m"
proof (induction pre arbitrary: prev)
  case Nil
  then show ?case by simp
next
  case (Cons c cs)
  show ?case
  proof (cases "c = CHR ''{'' \<and> prev \<noteq> Some (CHR ''$'') \<and> CHR ''}'' \<notin> set cs")
    case True
    then have "c # cs = [] @ CHR ''{'' # cs \<and> closed_braces prev [] \<and>
               (if [] = ([]::string) then prev else Some (last [])) \<noteq> Some (CHR ''$'') \<and>
               CHR ''}'' \<notin> set cs"
      by simp
    then show ?thesis by blast
  next
    case False
    with Cons.prems have "\<not> closed_braces (Some c) cs" by auto
    from Cons.IH [OF this] obtain a m where
      am: "cs = a @ CHR ''{'' # m" "closed_braces (Some c) a"
          "(if a = [] then Some c else Some (last a)) \<noteq> Some (CHR ''$'')" "CHR ''}'' \<notin> set m"
      by blast
    have "c = CHR ''{'' \<and> prev \<noteq> Some (CHR ''$'') \<longrightarrow> CHR ''}'' \<in> set a"
      using False am(1,4) by auto
    with am(2) have "closed_braces prev (c # a)" by simp
    moreover have "c # cs = (c # a) @ CHR ''{'' # m" using am(1) by simp
    moreover have "(if c # a = [] then prev else Some (last (c # a))) \<noteq> Some (CHR ''$'')"
      using am(3) by (auto split: if_splits)
    ultimately show ?thesis using am(4) by blast
  qed
qed

lemma matchAll_swallows:
  assumes "\<not> closed_braces None pre" "CHR ''}'' \<notin> set n"
  shows "\<exists>a m. pre = a @ CHR ''{'' # m \<and>
           matchAll None (pre @ CHR ''{'' # n @ CHR ''}'' # post) =
             matchAll None a @ (m @ CHR ''{'' # n) # matchAll (Some (CHR ''}'')) post"
proof -
  from first_open_brace [OF assms(1)] obtain a m where
    am: "pre = a @ CHR ''{'' # m" "closed_braces None a"
        "(if a = [] then None else Some (last a)) \<noteq> Some (CHR ''$'')" "CHR ''}'' \<notin> set m"
    by blast
  have g: "macro_group ((m @ CHR ''{'' # n) @ CHR ''}'' # post) = Some (m @ CHR ''{'' # n, post)"
    using am(4) assms(2) by (intro macro_group_token) auto
  have "matchAll None (a @ CHR ''{'' # (m @ CHR ''{'' # n) @ CHR ''}'' # post) =
          matchAll None a @ (m @ CHR ''{'' # n) # matchAll (Some (CHR ''}'')) post"
    unfolding matchAll_append [OF am(2)] using am(3) g by simp
  with am(1) show ?thesis by auto
qed

lemma own_keys_assign_null:
  "set (own_keys (assign_null macro k)) \<subseteq> insert k (set (own_keys macro))"
  by (auto simp: assign_null_def)

lemma own_keys_foldl:
  "set (own_keys (foldl assign_null macro ns)) \<subseteq> set (own_keys macro) \<union> set ns"
proof (induction ns arbitrary: macro)
  case Nil
  show ?case by simp
next
  case (Cons k ns)
  have "set (own_keys (foldl assign_null (assign_null macro k) ns))
          \<subseteq> set (own_keys (assign_null macro k)) \<union> set ns"
    by (rule Cons.IH)
  with own_keys_assign_null [of macro k] show ?case by auto
qed

lemma own_keys_foldl_mem:
  "n \<noteq> ''__proto__'' \<Longrightarrow> n \<in> set (own_keys macro) \<or> n \<in> set ns \<Longrightarrow>
   n \<in> set (own_keys (foldl assign_null macro ns))"
proof (induction ns arbitrary: macro)
  case Nil
  then show ?case by simp
next
  case (Cons k ns)
  have "n \<in> set (own_keys (assign_null macro k)) \<or> n \<in> set ns"
    using Cons.prems by (auto simp: assign_null_def)
  from Cons.IH [OF Cons.prems(1) this] show ?case by simp
qed

lemma placeholders_one_file:
  "endsWith (resolve folder_path entry_name) ''.sql'' \<Longrightarrow>
   placeholders folder_path [File entry_name script_content] =
     scanned_macros (cut_functions script_content)"
  by (simp add: placeholders_def find_macros_def scan_file_def add_matches_def
        scanned_macros_def)

text \<open>
  Claim C4, as the code has it. Every name in the Placeholder Set of a scanned text is
  the name of a \<^verbatim>\<open>{name}\<close> token of the text whose \<^verbatim>\<open>{\<close> is not preceded by \<^verbatim>\<open>$\<close>, so a
  name that only occurs in escaped tokens is not in the set. A \<^verbatim>\<open>{name}\<close> token that is
  not preceded by \<^verbatim>\<open>$\<close> puts its name (other than \<^verbatim>\<open>__proto__\<close>) into the set when every
  unescaped \<^verbatim>\<open>{\<close> before the token is followed, before the token, by a \<^verbatim>\<open>}\<close>; when one
  is not, the token lies inside the match that starts at the first such brace, and
  what is captured there ends in the token's \<^verbatim>\<open>{name\<close>. For the text \<^verbatim>\<open>${foo} {bar}\<close> the
  set is exactly \<open>bar\<close>.
\<close>

theorem unescaped_tokens_found:
  "(n \<in> set (scanned_macros text) \<longrightarrow>
      (\<exists>pre post. text = pre @ CHR ''{'' # n @ CHR ''}'' # post \<and> n \<noteq> [] \<and>
                  CHR ''}'' \<notin> set n \<and> (pre = [] \<or> last pre \<noteq> CHR ''$''))) \<and>
   (text = pre @ CHR ''{'' # n @ CHR ''}'' # post \<and> n \<noteq> [] \<and> CHR ''}'' \<notin> set n \<and>
    (pre = [] \<or> last pre \<noteq> CHR ''$'') \<and> closed_braces None pre \<and> n \<noteq> ''__proto__'' \<longrightarrow>
      n \<in> set (scanned_macros text)) \<and>
   (text = pre @ CHR ''{'' # n @ CHR ''}'' # post \<and> CHR ''}'' \<notin> set n \<and>
    \<not> closed_braces None pre \<longrightarrow>
      (\<exists>a m. pre = a @ CHR ''{'' # m \<and>
             matchAll None text =
               matchAll None a @ (m @ CHR ''{'' # n) # matchAll (Some (CHR ''}'')) post)) \<and>
   scanned_macros ''${foo} {bar}'' = [''bar'']"
proof (intro conjI impI)
  assume "n \<in> set (scanned_macros text)"
  then have "n \<in> set (matchAll None text)"
    using own_keys_foldl [of empty_object "matchAll None text"]
    by (auto simp: scanned_macros_def Object_keys_def empty_object_def)
  from matchAll_sound [OF this]
  show "\<exists>pre post. text = pre @ CHR ''{'' # n @ CHR ''}'' # post \<and> n \<noteq> [] \<and>
                  CHR ''}'' \<notin> set n \<and> (pre = [] \<or> last pre \<noteq> CHR ''$'')"
    by (metis (full_types))
next
  assume a: "text = pre @ CHR ''{'' # n @ CHR ''}'' # post \<and> n \<noteq> [] \<and> CHR ''}'' \<notin> set n \<and>
    (pre = [] \<or> last pre \<noteq> CHR ''$'') \<and> closed_braces None pre \<and> n \<noteq> ''__proto__''"
  then have "n \<in> set (matchAll None text)"
    using matchAll_complete [of "text" pre n post] by blast
  with a show "n \<in> set (scanned_macros text)"
    by (simp add: scanned_macros_def Object_keys_def own_keys_foldl_mem)
next
  assume "text = pre @ CHR ''{'' # n @ CHR ''}'' # post \<and> CHR ''}'' \<notin> set n \<and>
    \<not> closed_braces None pre"
  then show "\<exists>a m. pre = a @ CHR ''{'' # m \<and>
             matchAll None text =
               matchAll None a @ (m @ CHR ''{'' # n) # matchAll (Some (CHR ''}'')) post"
    using matchAll_swallows [of pre n post] by simp
next
  show "scanned_macros ''${foo} {bar}'' = [''bar'']"
    by (simp add: scanned_macros_def macro_group_def Object_keys_def assign_null_def
          empty_object_def)
qed

text \<open>
  \<open>bar\<close> is found and \<open>foo\<close> is not; \<open>b\<close> is found after the escaped brace of
  \<^verbatim>\<open>${a {b}\<close>; in \<^verbatim>\<open>{a{b}\<close> the token \<^verbatim>\<open>{b}\<close> is inside the match that captures \<^verbatim>\<open>a{b\<close>.
\<close>

theorem unescaped_tokens_found_witness:
  "''bar'' \<in> set (scanned_macros ''${foo} {bar}'') \<and>
   ''foo'' \<notin> set (scanned_macros ''${foo} {bar}'') \<and>
   ''b'' \<in> set (scanned_macros ''${a {b}'') \<and>
   (\<exists>a m. ''{a'' = a @ CHR ''{'' # m \<and>
          matchAll None ''{a{b}'' = matchAll None a @ (m @ ''{b'') # matchAll (Some (CHR ''}'')) [])"
  using unescaped_tokens_found [of "''bar''" "''${foo} {bar}''" "''${foo} ''" "[]"]
        unescaped_tokens_found [of "''b''" "''${a {b}''" "''${a ''" "[]"]
        unescaped_tokens_found [of "''b''" "''{a{b}''" "''{a''" "[]"]
  by simp

text \<open>
  Claim C4, as stated, fails: in \<^verbatim>\<open>{a{b}\<close> the token \<^verbatim>\<open>{b}\<close> follows the letter \<open>a\<close>,
  not a \<^verbatim>\<open>$\<close>, yet the only match starts at the first brace and \<open>b\<close> is not in the set.
\<close>

theorem nested_token_missed:
  "''{a{b}'' = ''{a'' @ ''{b}'' \<and> scanned_macros ''{a{b}'' = [''a{b''] \<and>
   ''b'' \<notin> set (scanned_macros ''{a{b}'')"
  by (simp add: scanned_macros_def macro_group_def Object_keys_def assign_null_def
        empty_object_def)


subsection \<open>The FUNCTIONS marker\<close>

text \<open>
  \<open>fn_match\<close> is the first position at which the marker stands. When that position is
  not 0 the text is cut there, and every name found is the name of a token that lies
  before the marker.
\<close>

lemma fn_match_first:
  "fn_match s = Some i \<Longrightarrow>
   i \<le> length s \<and> matches_here FUNCTIONS (drop i s) \<and>
   (\<forall>j<i. \<not> matches_here FUNCTIONS (drop j s))"
proof (induction s arbitrary: i)
  case Nil
  then show ?case by simp
next
  case (Cons c cs)
  show ?case
  proof (cases "matches_here FUNCTIONS (c # cs)")
    case True
    with Cons.prems show ?thesis by simp
  next
    case False
    with Cons.prems obtain k where k: "fn_match cs = Some k" "i = Suc k" by auto
    from Cons.IH [OF k(1)] have
      ih: "k \<le> length cs" "matches_here FUNCTIONS (drop k cs)"
          "\<forall>j<k. \<not> matches_here FUNCTIONS (drop j cs)" by auto
    have "\<not> matches_here FUNCTIONS (drop j (c # cs))" if "j < Suc k" for j
      using that False ih(3) by (cases j) auto
    with ih(1,2) k(2) show ?thesis by simp
  qed
qed

lemma later_marker_cuts:
  assumes "fn_match script_content = Some i" "i \<noteq> 0"
    and "n \<in> set (Object_keys (add_matches empty_object script_content))"
  shows "\<exists>pre post. take i script_content = pre @ CHR ''{'' # n @ CHR ''}'' # post"
proof -
  from assms(1,2) have c: "cut_functions script_content = take i script_content"
    by (simp add: cut_functions_def)
  from assms(3) have "n \<in> set (matchAll None (take i script_content))"
    using own_keys_foldl [of empty_object "matchAll None (take i script_content)"]
    by (auto simp: add_matches_def c Object_keys_def empty_object_def)
  from matchAll_sound [OF this] show ?thesis by blast
qed

lemma marker_later_example:
  "placeholders ''/q'' [File ''q.sql'' (''{a}'' @ [CHR 0x0A] @ ''FUNCTIONS'' @ [CHR 0x0A] @ ''{b}'')] = [''a'']"
  by (simp add: placeholders_def find_macros_def scan_file_def add_matches_def resolve_def
        endsWith_def cut_functions_def FUNCTIONS_def macro_group_def assign_null_def
        empty_object_def Object_keys_def)

text \<open>
  Claim C1 does not hold of the code when the marker is the very first text of the
  file: the index of the match is 0, the test \<^verbatim>\<open>if (fn_match?.index)\<close> fails, nothing is
  cut, and the macro \<open>b\<close>, which only occurs after the marker, is in the Placeholder Set.
\<close>

theorem marker_at_start_not_cut:
  "fn_match ''FUNCTIONS {b}'' = Some 0 \<and>
   cut_functions ''FUNCTIONS {b}'' = ''FUNCTIONS {b}'' \<and>
   placeholders ''/q'' [File ''q.sql'' ''FUNCTIONS {b}''] = [''b'']"
  by (simp add: placeholders_def find_macros_def scan_file_def add_matches_def resolve_def
        endsWith_def cut_functions_def FUNCTIONS_def macro_group_def assign_null_def
        empty_object_def Object_keys_def)

section \<open>Properties of macro resolution\<close>

subsection \<open>No placeholders\<close>

lemma foldl_scan_file_skip:
  "\<forall>f\<in>set files. endsWith (fst f) ''.sql'' \<longrightarrow> matchAll None (cut_functions (snd f)) = []
   \<Longrightarrow> foldl scan_file macro files = macro"
  by (induction files arbitrary: macro) (auto simp: scan_file_def add_matches_def)

lemma no_macros_no_placeholders:
  "\<forall>f\<in>set (readDir folder_path entries).
      endsWith (fst f) ''.sql'' \<longrightarrow> matchAll None (cut_functions (snd f)) = []
   \<Longrightarrow> placeholders folder_path entries = []"
  by (simp add: placeholders_def find_macros_def foldl_scan_file_skip Object_keys_def
        empty_object_def)

text \<open>
  Claim C8. When the Placeholder Set of the folder is empty, the resolver returns the
  empty mapping, asks nothing, prints no notice and leaves the answer cache as it was,
  whatever the prompt collaborator is. The set is empty in particular when no file of
  the folder ends in \<^verbatim>\<open>.sql\<close>, or when the pattern matches in none of those that do.
\<close>

theorem empty_set_no_prompt:
  "(placeholders folder_path entries = [] \<longrightarrow>
      getMacroValues inquirer folder_path entries answers prefix =
        \<lparr>returned = Some Map.empty, cache_after = answers, asked = [], notice = False\<rparr>) \<and>
   ((\<forall>f\<in>set (readDir folder_path entries).
       endsWith (fst f) ''.sql'' \<longrightarrow> matchAll None (cut_functions (snd f)) = []) \<longrightarrow>
      placeholders folder_path entries = [])"
  using no_macros_no_placeholders [of folder_path entries]
  by (simp add: getMacroValues_def)

text \<open>A folder whose only query file holds an escaped \<^verbatim>\<open>${y}\<close>, beside a text file.\<close>

theorem empty_set_no_prompt_witness:
  "getMacroValues (\<lambda>questions known. (map q_name questions, None)) ''/q''
     [File ''notes.txt'' ''{x}'', Directory ''d'' [File ''a.sql'' ''SELECT 1 ${y}'']]
     [''ns'' \<mapsto> [''x'' \<mapsto> ''1'']] ''bq_macro'' =
   \<lparr>returned = Some Map.empty, cache_after = [''ns'' \<mapsto> [''x'' \<mapsto> ''1'']],
    asked = [], notice = False\<rparr>"
  using empty_set_no_prompt
    [of "''/q''" "[File ''notes.txt'' ''{x}'', Directory ''d'' [File ''a.sql'' ''SELECT 1 ${y}'']]"
        "\<lambda>questions known. (map q_name questions, None)"
        "[''ns'' \<mapsto> [''x'' \<mapsto> ''1'']]" "''bq_macro''"]
  by (simp add: resolve_def endsWith_def cut_functions_def FUNCTIONS_def macro_group_def)

subsection \<open>The other namespaces\<close>

lemma placeholders_x_y:
  "placeholders ''/q'' [File ''a.sql'' ''SELECT {x}, {y}''] = [''x'', ''y'']"
  by (simp add: placeholders_def find_macros_def scan_file_def add_matches_def resolve_def
        endsWith_def cut_functions_def FUNCTIONS_def macro_group_def assign_null_def
        empty_object_def Object_keys_def)

text \<open>
  Claim C10. Whatever the prompt collaborator answers, and whether or not it fails,
  every key of the answer cache other than the namespace of the call maps after the
  call to what it mapped to before.
\<close>

theorem other_namespaces_untouched:
  "k \<noteq> prefix \<Longrightarrow>
   cache_after (getMacroValues inquirer folder_path entries answers prefix) k = answers k"
  by (simp add: getMacroValues_def Let_def split: prod.splits)


theorem other_namespaces_untouched_witness:
  "cache_after (getMacroValues (\<lambda>questions known. (map q_name questions, Some [''y'' \<mapsto> ''2'']))
      ''/q'' [File ''a.sql'' ''SELECT {x}, {y}'']
      [''ns'' \<mapsto> [''x'' \<mapsto> ''1''], ''other'' \<mapsto> [''y'' \<mapsto> ''7'']] ''ns'') ''other'' =
   Some [''y'' \<mapsto> ''7'']"
  using other_namespaces_untouched
    [of "''other''" "''ns''" "\<lambda>questions known. (map q_name questions, Some [''y'' \<mapsto> ''2''])"
        "''/q''" "[File ''a.sql'' ''SELECT {x}, {y}'']"
        "[''ns'' \<mapsto> [''x'' \<mapsto> ''1''], ''other'' \<mapsto> [''y'' \<mapsto> ''7'']]"]
  by simp

subsection \<open>Cached answers are not asked again\<close>

lemma map_of_tabulate:
  "map_of (map (\<lambda>n. (n, g n)) xs) k = (if k \<in> set xs then Some (g k) else None)"
  by (induction xs) auto

lemma inquirer_prompt_text:
  "inquirer_prompt operator (map text_question names) prev =
     (filter (\<lambda>n. prev n = None) names,
      Some (prev ++ (\<lambda>k. if k \<in> set names \<and> prev k = None then Some (operator k) else None)))"
proof -
  have q: "q_name (text_question n) = n" for n by (simp add: text_question_def)
  have f: "filter (\<lambda>q. prev (q_name q) = None) (map text_question names) =
           map text_question (filter (\<lambda>n. prev n = None) names)"
    by (simp add: filter_map o_def q)
  have m: "map_of (map (\<lambda>q. (q_name q, operator (q_name q)))
                    (map text_question (filter (\<lambda>n. prev n = None) names))) =
           (\<lambda>k. if k \<in> set names \<and> prev k = None then Some (operator k) else None)"
    by (rule ext) (simp add: o_def q map_of_tabulate)
  show ?thesis
    by (simp only: inquirer_prompt_def Let_def f m) (simp add: o_def q)
qed

text \<open>
  Claim C2. With a non-empty Placeholder Set, the names asked are exactly the
  placeholders that the cache does not hold under the namespace; the mapping returned
  (which is also the new entry of the namespace) keeps every cached entry with its
  value, gives every asked name the operator's answer, and holds the cached names and
  the placeholders, nothing else.
\<close>

theorem only_missing_prompted:
  assumes "placeholders folder_path entries \<noteq> []"
  shows "let r = getMacroValues (inquirer_prompt operator) folder_path entries answers prefix;
             prev = (case answers prefix of None \<Rightarrow> Map.empty | Some c \<Rightarrow> c)
         in asked r = filter (\<lambda>n. prev n = None) (placeholders folder_path entries) \<and>
            (\<exists>m. returned r = Some m \<and> cache_after r prefix = Some m \<and>
                 (\<forall>n v. prev n = Some v \<longrightarrow> m n = Some v) \<and>
                 (\<forall>n\<in>set (asked r). m n = Some (operator n)) \<and>
                 dom m = dom prev \<union> set (placeholders folder_path entries))"
proof -
  let ?names = "placeholders folder_path entries"
  let ?prev = "case answers prefix of None \<Rightarrow> Map.empty | Some c \<Rightarrow> c"
  let ?new = "\<lambda>k. if k \<in> set ?names \<and> ?prev k = None then Some (operator k) else None"
  let ?m = "?prev ++ ?new"
  have r: "getMacroValues (inquirer_prompt operator) folder_path entries answers prefix =
             \<lparr>returned = Some ?m, cache_after = answers(prefix \<mapsto> ?prev ++ ?m),
              asked = filter (\<lambda>n. ?prev n = None) ?names,
              notice = (case answers prefix of
                          None \<Rightarrow> True
                        | Some c \<Rightarrow> filter (\<lambda>i. \<not> js_in (q_name i) c)
                                      (map text_question ?names) \<noteq> [])\<rparr>"
    using assms by (simp add: getMacroValues_def Let_def prompt_def inquirer_prompt_text)
  have i: "?prev ++ ?m = ?m" by (rule ext) (simp add: map_add_def split: option.splits)
  have a: "\<forall>n v. ?prev n = Some v \<longrightarrow> ?m n = Some v"
    by (simp add: map_add_def)
  have b: "\<forall>n\<in>set (filter (\<lambda>n. ?prev n = None) ?names). ?m n = Some (operator n)"
    by (simp add: map_add_def)
  have c: "dom ?m = dom ?prev \<union> set ?names"
    by (auto simp: map_add_def dom_def split: option.splits if_splits)
  show ?thesis
    unfolding Let_def r i using a b c by simp
qed


text \<open>The cache \<^verbatim>\<open>{"ns": {"x": "1"}}\<close> and the placeholders \<open>x\<close> and \<open>y\<close>: only \<open>y\<close> is asked.\<close>

theorem only_missing_prompted_witness:
  "asked (getMacroValues (inquirer_prompt (\<lambda>n. ''2'')) ''/q''
            [File ''a.sql'' ''SELECT {x}, {y}''] [''ns'' \<mapsto> [''x'' \<mapsto> ''1'']] ''ns'') = [''y''] \<and>
   (\<exists>m. returned (getMacroValues (inquirer_prompt (\<lambda>n. ''2'')) ''/q''
            [File ''a.sql'' ''SELECT {x}, {y}''] [''ns'' \<mapsto> [''x'' \<mapsto> ''1'']] ''ns'') = Some m \<and>
        m ''x'' = Some ''1'' \<and> m ''y'' = Some ''2'' \<and> dom m = {''x'', ''y''})"
proof -
  let ?r = "getMacroValues (inquirer_prompt (\<lambda>n. ''2'')) ''/q''
            [File ''a.sql'' ''SELECT {x}, {y}''] [''ns'' \<mapsto> [''x'' \<mapsto> ''1'']] ''ns''"
  have ne: "placeholders ''/q'' [File ''a.sql'' ''SELECT {x}, {y}''] \<noteq> []"
    by (simp add: placeholders_x_y)
  from only_missing_prompted [OF ne, of "\<lambda>n. ''2''" "[''ns'' \<mapsto> [''x'' \<mapsto> ''1'']]" "''ns''"]
  obtain m where a: "asked ?r = filter (\<lambda>n. [''x'' \<mapsto> ''1''] n = None) [''x'', ''y'']"
    and m: "returned ?r = Some m" "\<forall>n v. [''x'' \<mapsto> ''1''] n = Some v \<longrightarrow> m n = Some v"
      "\<forall>n\<in>set (asked ?r). m n = Some ''2''" "dom m = dom [''x'' \<mapsto> ''1''] \<union> set [''x'', ''y'']"
    unfolding Let_def placeholders_x_y by auto
  from a have a': "asked ?r = [''y'']" by simp
  from m(2) have x: "m ''x'' = Some ''1''" by simp
  from m(3) a' have y: "m ''y'' = Some ''2''" by simp
  from m(4) have d: "dom m = {''x'', ''y''}" by auto
  from a' m(1) x y d show ?thesis by blast
qed


end
